theory Spec2Isabelle
  imports Complex_Main "HOL-Library.Log_Nat"
begin

section \<open>Type Classifier: \<open>getFileType\<close>\<close>

text \<open>
  The categories are the keys of the \<open>SUPPORTED\<close> table of \<open>src/app.js\<close>; the value
  \<open>null\<close> that \<open>getFileType\<close> returns for an unmapped extension is \<open>None\<close>.
\<close>

datatype ftype = Pdf | Image | Word | Excel | Text | Markdown | Html | Powerpoint

text \<open>
  \<open>SUPPORTED\<close>, in the order in which \<open>Object.entries\<close> enumerates it (the order of the
  object literal).
\<close>

definition SUPPORTED :: "(ftype \<times> string list) list" where
  "SUPPORTED =
    [(Pdf, [''.pdf'']),
     (Image, [''.jpg'', ''.jpeg'', ''.png'', ''.gif'', ''.webp'', ''.bmp'', ''.tiff'', ''.tif'']),
     (Word, [''.docx'', ''.doc'']),
     (Excel, [''.xlsx'', ''.xls'', ''.csv'']),
     (Text, [''.txt'']),
     (Markdown, [''.md'', ''.markdown'']),
     (Html, [''.html'', ''.htm'']),
     (Powerpoint, [''.pptx'', ''.ppt''])]"

text \<open>
  \<open>String.prototype.toLowerCase\<close> on the characters of a \<open>string\<close>: the letters
  \<open>A\<close> to \<open>Z\<close> (codes 65 to 90) move to \<open>a\<close> to \<open>z\<close>, every other character stays.
  A \<open>string\<close> holds 8-bit characters; JavaScript also lowers the letters with codes
  192 to 222, to characters that are again outside ASCII, so that the comparison with
  the extensions of the table, which are ASCII, reads the same.
\<close>

definition lower_char :: "char \<Rightarrow> char" where
  "lower_char c =
    (let n = (of_char c :: nat) in if 65 \<le> n \<and> n \<le> 90 then char_of (n + 32) else c)"

definition toLowerCase :: "string \<Rightarrow> string" where
  "toLowerCase s = map lower_char s"

text \<open>
  \<open>s.match(/\.[^.]+$/)\<close>: the leftmost position at which a dot is followed by one or
  more characters other than a dot, up to the end of the string. \<open>None\<close> is the
  \<open>null\<close> of a failed match, \<open>Some m\<close> carries the matched text \<open>m[0]\<close>.
\<close>

fun match_ext :: "string \<Rightarrow> string option" where
  "match_ext [] = None"
| "match_ext (c # cs) =
    (if c = CHR ''.'' \<and> cs \<noteq> [] \<and> CHR ''.'' \<notin> set cs then Some (c # cs)
     else match_ext cs)"

text \<open>The loop over \<open>Object.entries(SUPPORTED)\<close>: the first category whose list includes \<open>ext\<close>.\<close>

fun find_type :: "(ftype \<times> string list) list \<Rightarrow> string \<Rightarrow> ftype option" where
  "find_type [] ext = None"
| "find_type ((t, exts) # rest) ext =
    (if ext \<in> set exts then Some t else find_type rest ext)"

definition getFileType :: "string \<Rightarrow> ftype option" where
  "getFileType filename =
    (let ext = (case match_ext (toLowerCase filename) of Some m \<Rightarrow> m | None \<Rightarrow> '''')
     in find_type SUPPORTED ext)"

section \<open>Natural-Order Sequencer: \<open>naturalSort\<close>\<close>

text \<open>
  The numbers that \<open>naturalSort\<close> computes with are the integers that are doubles, the
  two infinities and \<open>NaN\<close>.
\<close>

datatype jsnum = Fin int | PInf | NInf | NaN

text \<open>
  An element of \<open>ax\<close> is the pair \<open>[$1 || Infinity, $2 || ""]\<close>: for a run of digits the
  run itself (a non-empty string, which is true) and \<open>""\<close>, for a run of other
  characters \<open>Infinity\<close> and the run. \<open>\d\<close> matches the characters \<open>0\<close> to \<open>9\<close>.
\<close>

datatype key = Digits string | Infinity

definition is_digit :: "char \<Rightarrow> bool" where
  "is_digit c = (48 \<le> (of_char c :: nat) \<and> (of_char c :: nat) \<le> 57)"

text \<open>
  \<open>a.replace(/(\d+)|(\D+)/g, ...)\<close>: the callback is called once for each maximal run of
  digits or of other characters, from left to right. The function reads the string from
  its end and joins a character with the run that follows it when both are of the same
  kind.
\<close>

fun tokens :: "string \<Rightarrow> (key \<times> string) list" where
  "tokens [] = []"
| "tokens (c # cs) =
    (if is_digit c
     then (case tokens cs of
             (Digits d, e) # ts \<Rightarrow> (Digits (c # d), e) # ts
           | ts \<Rightarrow> (Digits [c], '''') # ts)
     else (case tokens cs of
             (Infinity, s) # ts \<Rightarrow> (Infinity, c # s) # ts
           | ts \<Rightarrow> (Infinity, [c]) # ts))"

text \<open>The integer that a run of digits denotes.\<close>

definition decimal :: "string \<Rightarrow> nat" where
  "decimal d = foldl (\<lambda>n c. 10 * n + ((of_char c :: nat) - 48)) 0 d"

text \<open>
  The double nearest to a natural number, ties to the even significand: numbers below
  \<open>2^53\<close> are doubles; a larger number keeps its 53 leading bits, rounded; a result of
  \<open>2^1024\<close> or more is \<open>Infinity\<close>. \<open>floorlog 2 n\<close> is the number of bits of \<open>n\<close>.
\<close>

definition round_double :: "nat \<Rightarrow> jsnum" where
  "round_double n =
    (if n < 2 ^ 53 then Fin (int n)
     else (let k = floorlog 2 n - 53;
               q = n div 2 ^ k;
               r = n mod 2 ^ k;
               q' = (if 2 * r > 2 ^ k \<or> (2 * r = 2 ^ k \<and> odd q) then q + 1 else q);
               v = q' * 2 ^ k
           in if v \<ge> 2 ^ 1024 then PInf else Fin (int v)))"

definition round_int :: "int \<Rightarrow> jsnum" where
  "round_int z =
    (if 0 \<le> z then round_double (nat z)
     else (case round_double (nat (- z)) of Fin v \<Rightarrow> Fin (- v) | PInf \<Rightarrow> NInf | x \<Rightarrow> x))"

text \<open>
  The operands of \<open>an[0] - bn[0]\<close> as numbers: a run of digits is converted as by
  \<open>Number\<close>, \<open>Infinity\<close> is itself.
\<close>

definition toNumber :: "key \<Rightarrow> jsnum" where
  "toNumber k = (case k of Digits d \<Rightarrow> round_double (decimal d) | Infinity \<Rightarrow> PInf)"

fun js_sub :: "jsnum \<Rightarrow> jsnum \<Rightarrow> jsnum" where
  "js_sub (Fin a) (Fin b) = round_int (a - b)"
| "js_sub (Fin a) PInf = NInf"
| "js_sub (Fin a) NInf = PInf"
| "js_sub PInf (Fin b) = PInf"
| "js_sub PInf PInf = NaN"
| "js_sub PInf NInf = PInf"
| "js_sub NInf (Fin b) = NInf"
| "js_sub NInf PInf = NInf"
| "js_sub NInf NInf = NaN"
| "js_sub NaN y = NaN"
| "js_sub x NaN = NaN"

text \<open>A number is false in a condition when it is zero or \<open>NaN\<close>.\<close>

fun truthy_num :: "jsnum \<Rightarrow> bool" where
  "truthy_num (Fin z) = (z \<noteq> 0)"
| "truthy_num NaN = False"
| "truthy_num PInf = True"
| "truthy_num NInf = True"

text \<open>
  \<open>(an[0] - bn[0]) || an[1].localeCompare(bn[1])\<close>. \<open>String.prototype.localeCompare\<close> is
  the parameter \<open>lc\<close>; it returns an integer.
\<close>

definition compareToken ::
  "(string \<Rightarrow> string \<Rightarrow> int) \<Rightarrow> key \<times> string \<Rightarrow> key \<times> string \<Rightarrow> jsnum" where
  "compareToken lc an bn =
    (let d = js_sub (toNumber (fst an)) (toNumber (fst bn))
     in if truthy_num d then d else Fin (lc (snd an) (snd bn)))"

text \<open>The \<open>while\<close> loop and the final \<open>return ax.length - bx.length\<close>.\<close>

fun compareTokens ::
  "(string \<Rightarrow> string \<Rightarrow> int) \<Rightarrow> (key \<times> string) list \<Rightarrow> (key \<times> string) list \<Rightarrow> jsnum" where
  "compareTokens lc (an # ax) (bn # bx) =
    (let nn = compareToken lc an bn
     in if truthy_num nn then nn else compareTokens lc ax bx)"
| "compareTokens lc ax bx = Fin (int (length ax) - int (length bx))"

definition naturalSort :: "(string \<Rightarrow> string \<Rightarrow> int) \<Rightarrow> string \<Rightarrow> string \<Rightarrow> jsnum" where
  "naturalSort lc a b = compareTokens lc (tokens a) (tokens b)"

text \<open>The sign of a result, as a sort reads it.\<close>

fun sign :: "jsnum \<Rightarrow> int" where
  "sign (Fin z) = sgn z"
| "sign PInf = 1"
| "sign NInf = - 1"
| "sign NaN = 0"

text \<open>
  What is assumed of \<open>localeCompare\<close>: it compares as a collation does, by a total
  preorder on strings. The comparison by character codes is an instance.
\<close>

definition collation :: "(string \<Rightarrow> string \<Rightarrow> int) \<Rightarrow> bool" where
  "collation lc \<longleftrightarrow>
    (\<forall>s. lc s s = 0) \<and> (\<forall>s t. sgn (lc t s) = - sgn (lc s t)) \<and>
    (\<forall>s t u. lc s t \<le> 0 \<and> lc t u \<le> 0 \<longrightarrow> lc s u \<le> 0)"

fun ordinalCompare :: "string \<Rightarrow> string \<Rightarrow> int" where
  "ordinalCompare [] [] = 0"
| "ordinalCompare [] (y # ys) = - 1"
| "ordinalCompare (x # xs) [] = 1"
| "ordinalCompare (x # xs) (y # ys) =
    (if (of_char x :: nat) < of_char y then - 1
     else if (of_char y :: nat) < of_char x then 1
     else ordinalCompare xs ys)"

text \<open>
  The order that the comparison of two elements realises: an element with a finite
  number, ordered by the number and then by its text, comes before an element without,
  ordered by its text. The sign of a comparison of lists is lexicographic, the shorter
  list first.
\<close>

datatype atok = ANum int string | ATxt string

definition abs_tok :: "key \<times> string \<Rightarrow> atok" where
  "abs_tok tok =
    (case toNumber (fst tok) of Fin v \<Rightarrow> ANum v (snd tok) | _ \<Rightarrow> ATxt (snd tok))"

fun asgn :: "(string \<Rightarrow> string \<Rightarrow> int) \<Rightarrow> atok \<Rightarrow> atok \<Rightarrow> int" where
  "asgn lc (ANum a s) (ANum b t) = (if a \<noteq> b then sgn (a - b) else sgn (lc s t))"
| "asgn lc (ANum a s) (ATxt t) = - 1"
| "asgn lc (ATxt s) (ANum b t) = 1"
| "asgn lc (ATxt s) (ATxt t) = sgn (lc s t)"

fun lexsgn :: "('a \<Rightarrow> 'a \<Rightarrow> int) \<Rightarrow> 'a list \<Rightarrow> 'a list \<Rightarrow> int" where
  "lexsgn s (x # xs) (y # ys) = (if s x y \<noteq> 0 then s x y else lexsgn s xs ys)"
| "lexsgn s xs ys = sgn (int (length xs) - int (length ys))"

section \<open>Pages of the output document\<close>

text \<open>
  The output document \<open>merged\<close> is the list of its pages, in page order;
  \<open>addPage\<close> appends. A page is either a page copied from a source PDF (with the content
  of the source page) or a new page of a given width and height with the
  drawing calls made on it, in call order. Colours are left out. An uploaded buffer is
  the string of its bytes; the content of a source page is a string as well.
\<close>

type_synonym buffer = string

datatype font = Courier | CourierBold

datatype draw =
    DrawText string real real real font  \<comment> \<open>text, x, y, size, font\<close>
  | DrawImage real real real real  \<comment> \<open>x, y, width, height\<close>

datatype page =
    CopiedPage string
  | NewPage real real "draw list"  \<comment> \<open>width, height, drawing calls\<close>

section \<open>Text Paginator: \<open>textToPdfPages\<close>\<close>

definition fontSize :: real where "fontSize = 10"
definition margin :: real where "margin = 50"
definition pageWidth :: real where "pageWidth = 612"
definition pageHeight :: real where "pageHeight = 792"
definition lineHeight :: real where "lineHeight = fontSize * 1.5"
definition maxWidth :: real where "maxWidth = pageWidth - margin * 2"

text \<open>
  The parameter \<open>title\<close> defaults to \<open>null\<close> (\<open>None\<close>); the conditions \<open>title ? 40 : 0\<close>
  and \<open>i === 0 && title\<close> take \<open>null\<close> and the empty string as false.
\<close>

definition truthy :: "string option \<Rightarrow> bool" where
  "truthy title = (case title of None \<Rightarrow> False | Some t \<Rightarrow> t \<noteq> [])"

definition maxLines :: "string option \<Rightarrow> nat" where
  "maxLines title =
    nat \<lfloor>(pageHeight - margin * 2 - (if truthy title then 40 else 0)) / lineHeight\<rfloor>"

text \<open>\<open>s.split(sep)\<close> for a separator of one character: at least one piece, also for \<open>''''\<close>.\<close>

fun split_on :: "char \<Rightarrow> string \<Rightarrow> string list" where
  "split_on sep [] = [[]]"
| "split_on sep (c # cs) =
    (if c = sep then [] # split_on sep cs
     else (case split_on sep cs of
             [] \<Rightarrow> [[c]]
           | piece # pieces \<Rightarrow> (c # piece) # pieces))"

text \<open>
  One round of the loop \<open>for (const word of words)\<close>. The state is the pair of the
  variable \<open>current\<close> and the array \<open>wrappedLines\<close>. The font metric
  \<open>font.widthOfTextAtSize\<close> of pdf-lib is the parameter \<open>wd\<close>, taken as a function that
  returns a width for every text.
\<close>

definition wrapStep ::
  "(string \<Rightarrow> real \<Rightarrow> real) \<Rightarrow> string \<Rightarrow> string \<times> string list \<Rightarrow> string \<times> string list" where
  "wrapStep wd word st =
    (case st of (current, wrappedLines) \<Rightarrow>
      (let test = (if current \<noteq> [] then current @ '' '' @ word else word)
       in if wd test fontSize > maxWidth \<and> current \<noteq> []
          then (word, wrappedLines @ [current])
          else (test, wrappedLines)))"

fun wrapWords ::
  "(string \<Rightarrow> real \<Rightarrow> real) \<Rightarrow> string list \<Rightarrow> string \<times> string list \<Rightarrow> string \<times> string list" where
  "wrapWords wd [] st = st"
| "wrapWords wd (word # words) st = wrapWords wd words (wrapStep wd word st)"

text \<open>The body of \<open>for (const line of lines)\<close>: the array \<open>wrappedLines\<close> after the line.\<close>

definition wrapLine ::
  "(string \<Rightarrow> real \<Rightarrow> real) \<Rightarrow> string list \<Rightarrow> string \<Rightarrow> string list" where
  "wrapLine wd wrappedLines line =
    (if line = [] then wrappedLines @ ['''']
     else (case wrapWords wd (split_on CHR '' '' line) ('''', wrappedLines) of
             (current, wrapped) \<Rightarrow> if current \<noteq> [] then wrapped @ [current] else wrapped))"

definition wrapText :: "(string \<Rightarrow> real \<Rightarrow> real) \<Rightarrow> string \<Rightarrow> string list" where
  "wrapText wd text = foldl (wrapLine wd) [] (split_on CHR 0x0A text)"

text \<open>The loop \<open>for (const line of pageLines)\<close>, with the running coordinate \<open>y\<close>.\<close>

fun drawLines :: "string list \<Rightarrow> real \<Rightarrow> draw list" where
  "drawLines [] y = []"
| "drawLines (line # pageLines) y =
    DrawText line margin (y - fontSize) fontSize Courier # drawLines pageLines (y - lineHeight)"

definition drawTitle :: "string option \<Rightarrow> nat \<Rightarrow> real \<Rightarrow> draw list" where
  "drawTitle title i y =
    (case title of
       None \<Rightarrow> []
     | Some t \<Rightarrow> if i = 0 \<and> t \<noteq> [] then [DrawText t margin (y - 14) 14 CourierBold] else [])"

definition newTextPage :: "string option \<Rightarrow> string list \<Rightarrow> nat \<Rightarrow> page" where
  "newTextPage title wrappedLines i =
    (let pageLines = take (maxLines title) (drop i wrappedLines);
         y = pageHeight - margin;
         y' = (if i = 0 \<and> truthy title then y - 40 else y)
     in NewPage pageWidth pageHeight (drawTitle title i y @ drawLines pageLines y'))"

text \<open>
  The loop \<open>for (let i = 0; i < wrappedLines.length; i += maxLines)\<close>: the pages it adds,
  in order. It ends because \<open>maxLines\<close> is 43 or 46.
\<close>

function createPages :: "string option \<Rightarrow> string list \<Rightarrow> nat \<Rightarrow> page list" where
  "createPages title wrappedLines i =
    (if i < length wrappedLines
     then newTextPage title wrappedLines i # createPages title wrappedLines (i + maxLines title)
     else [])"
  by pat_completeness auto
termination
proof (relation "measure (\<lambda>(title, wrappedLines, i). length wrappedLines - i)")
  fix title :: "string option" and wrappedLines :: "string list" and i :: nat
  assume "i < length wrappedLines"
  moreover have "0 < maxLines title"
    by (simp add: maxLines_def pageHeight_def margin_def lineHeight_def fontSize_def)
  ultimately show "((title, wrappedLines, i + maxLines title), (title, wrappedLines, i))
      \<in> measure (\<lambda>(title, wrappedLines, i). length wrappedLines - i)"
    by simp
qed simp

declare createPages.simps [simp del]

text \<open>\<open>textToPdfPages(text, pdfDoc, title)\<close>: the document after the call.\<close>

definition textToPdfPages ::
  "(string \<Rightarrow> real \<Rightarrow> real) \<Rightarrow> string \<Rightarrow> page list \<Rightarrow> string option \<Rightarrow> page list" where
  "textToPdfPages wd text pdfDoc title = pdfDoc @ createPages title (wrapText wd text) 0"

section \<open>Page Assembly Engine: the handler of \<open>POST /merge\<close>\<close>

text \<open>
  A thrown \<open>Error\<close> is the value \<open>Inl message\<close>. The calls into the libraries that decode
  the uploaded bytes are parameters, collected in a record:
  \<^item> \<open>load_pdf\<close>: \<open>PDFDocument.load(buffer, {ignoreEncryption: false})\<close> followed by
    \<open>copyPages(doc, doc.getPageIndices())\<close>: the pages of the source document in its
    page order, or the error thrown (an encrypted document throws);
  \<^item> \<open>sharp_metadata\<close>: the width and height that \<open>sharp(buffer).metadata()\<close> reports,
    or the error thrown;
  \<^item> \<open>sharp_jpeg\<close>: given the buffer, the box of the \<open>resize\<close> call if there is one, and
    the JPEG quality, the width and height of the encoded JPEG
    (\<open>processedMeta\<close>), or the error thrown;
  \<^item> \<open>extractText\<close>: for a text-like category, the text that its extractor returns
    (\<open>wordToText\<close>, \<open>excelToText\<close>, \<open>buffer.toString\<close>, \<open>markdownToText\<close>, \<open>htmlToText\<close>,
    \<open>pptxToText\<close>), or the error it throws;
  \<^item> \<open>widthOfTextAtSize\<close>: the metric of the embedded Courier font.
  The calls of pdf-lib that build the output document (\<open>create\<close>, \<open>embedFont\<close>,
  \<open>embedJpg\<close>, \<open>addPage\<close>, \<open>drawText\<close>, \<open>drawImage\<close>, \<open>save\<close>) are taken to succeed.
\<close>

record lib =
  load_pdf :: "buffer \<Rightarrow> string + string list"
  sharp_metadata :: "buffer \<Rightarrow> string + nat \<times> nat"
  sharp_jpeg :: "buffer \<Rightarrow> nat option \<Rightarrow> nat \<Rightarrow> string + nat \<times> nat"
  extractText :: "ftype \<Rightarrow> buffer \<Rightarrow> string + string"
  widthOfTextAtSize :: "string \<Rightarrow> real \<Rightarrow> real"

record upload =
  originalname :: string
  buffer :: buffer

text \<open>
  The table \<open>settings\<close> of \<open>imageToPdfPage\<close>: the pair (\<open>jpeg\<close>, \<open>resize\<close>) of a quality
  tier, the pair of \<open>medium\<close> for any other value.
\<close>

definition settings :: "string \<Rightarrow> nat \<times> nat" where
  "settings quality =
    (if quality = ''low'' then (50, 1200)
     else if quality = ''medium'' then (75, 2000)
     else if quality = ''high'' then (95, 4000)
     else (75, 2000))"

definition imageToPdfPage :: "lib \<Rightarrow> buffer \<Rightarrow> string \<Rightarrow> string + nat \<times> nat" where
  "imageToPdfPage L buf quality =
    (case settings quality of (jpeg, resize) \<Rightarrow>
      (case sharp_metadata L buf of
         Inl e \<Rightarrow> Inl e
       | Inr (width, height) \<Rightarrow>
           sharp_jpeg L buf (if width > resize \<or> height > resize then Some resize else None) jpeg))"

text \<open>
  \<open>Math.min(612 / width, 792 / height, 1)\<close>. A zero dimension makes the quotient
  \<open>Infinity\<close> in JavaScript, which leaves the minimum to the other arguments.
\<close>

definition page_scale :: "nat \<Rightarrow> nat \<Rightarrow> real" where
  "page_scale width height =
    min (if width = 0 then 1 else 612 / real width)
      (min (if height = 0 then 1 else 792 / real height) 1)"

text \<open>The page of the image branch, from \<open>processed.width\<close> and \<open>processed.height\<close>.\<close>

definition imagePage :: "nat \<Rightarrow> nat \<Rightarrow> page" where
  "imagePage width height =
    (let scale = page_scale width height;
         w = real width * scale;
         h = real height * scale
     in NewPage (max w 100) (max h 100) [DrawImage 0 0 w h])"

text \<open>
  The body of the inner \<open>try\<close> for one file: the document after it, or the error thrown.
  No branch adds a page before it throws.
\<close>

definition convert ::
  "lib \<Rightarrow> string \<Rightarrow> page list \<Rightarrow> upload \<Rightarrow> string + page list" where
  "convert L quality merged f =
    (let filename = originalname f in
     case getFileType filename of
       None \<Rightarrow> Inr merged
     | Some Pdf \<Rightarrow>
         (case load_pdf L (buffer f) of
            Inl e \<Rightarrow> Inl e
          | Inr pages \<Rightarrow> Inr (merged @ map CopiedPage pages))
     | Some Image \<Rightarrow>
         (case imageToPdfPage L (buffer f) quality of
            Inl e \<Rightarrow> Inl e
          | Inr (width, height) \<Rightarrow> Inr (merged @ [imagePage width height]))
     | Some t \<Rightarrow>
         (case extractText L t (buffer f) of
            Inl e \<Rightarrow> Inl e
          | Inr text \<Rightarrow>
              Inr (textToPdfPages (widthOfTextAtSize L) text merged (Some filename))))"

definition errorText :: "string \<Rightarrow> string \<Rightarrow> string" where
  "errorText filename message =
    ''Error processing file: '' @ filename @ [CHR 0x0A, CHR 0x0A] @ message"

text \<open>One round of \<open>for (const f of uploaded)\<close>, the \<open>catch\<close> of the inner \<open>try\<close> included.\<close>

definition processFile ::
  "lib \<Rightarrow> string \<Rightarrow> page list \<Rightarrow> upload \<Rightarrow> page list" where
  "processFile L quality merged f =
    (case convert L quality merged f of
       Inr merged' \<Rightarrow> merged'
     | Inl message \<Rightarrow>
         textToPdfPages (widthOfTextAtSize L) (errorText (originalname f) message) merged
           (Some ''Error''))"

datatype body = Plain string | PdfDocument "page list"

datatype response = Response nat string body  \<comment> \<open>status, content type, body\<close>

text \<open>
  The handler, from the uploaded files (\<open>req.files || []\<close>) and the quality
  (\<open>req.body.quality || 'medium'\<close>).
\<close>

definition merge :: "lib \<Rightarrow> string \<Rightarrow> upload list \<Rightarrow> response" where
  "merge L quality uploaded =
    (if length uploaded = 0 then Response 400 ''text/plain'' (Plain ''No files uploaded.'')
     else Response 200 ''application/pdf''
            (PdfDocument (foldl (processFile L quality) [] uploaded)))"

text \<open>
  \<open>msg.toLowerCase().includes(needle)\<close> and the outer \<open>catch\<close> of the handler, as a
  function of the message of the error that reaches it. Under the assumption above no
  error of the loop reaches it: the inner \<open>catch\<close> takes every error of \<open>convert\<close>.
\<close>

fun str_includes :: "string \<Rightarrow> string \<Rightarrow> bool" where
  "str_includes [] needle = (needle = [])"
| "str_includes (c # cs) needle =
    (take (length needle) (c # cs) = needle \<or> str_includes cs needle)"

definition mergeCatch :: "string \<Rightarrow> response" where
  "mergeCatch message =
    (let msg = (if message = [] then ''Merge failed.'' else message) in
     if str_includes (toLowerCase msg) ''encrypted'' \<or> str_includes (toLowerCase msg) ''password''
     then Response 500 ''text/plain''
            (Plain ''One or more PDFs are encrypted. Remove password protection and try again.'')
     else Response 500 ''text/plain'' (Plain msg))"

text \<open>
  A library for the examples. A PDF buffer \<open>LOCKED\<close> is an encrypted document, any other has two pages; an image
  buffer \<open>CORRUPT\<close> cannot be decoded, any other is 800 by 600 pixels; a text-like
  buffer holds its own text; a Courier glyph is 600/1000 of the font size wide.
\<close>

definition courier :: "string \<Rightarrow> real \<Rightarrow> real" where
  "courier s sz = real (length s) * (600 * sz / 1000)"

definition demo_lib :: lib where
  "demo_lib =
    \<lparr> load_pdf = (\<lambda>b. if b = ''LOCKED''
        then Inl ''Input document to PDFDocument.load is encrypted.''
        else Inr [b @ ''#1'', b @ ''#2'']),
      sharp_metadata = (\<lambda>b. if b = ''CORRUPT''
        then Inl ''Input buffer contains unsupported image format''
        else Inr (800, 600)),
      sharp_jpeg = (\<lambda>b box q. Inr (800, 600)),
      extractText = (\<lambda>t b. Inr b),
      widthOfTextAtSize = courier \<rparr>"

section \<open>Notions of the specification\<close>

text \<open>
  The words of a text, for a given set \<open>ws\<close> of whitespace characters: the maximal runs
  of other characters, in order. \<open>whitespace\<close> is the set that \<open>\s\<close> matches among the
  characters below 256.
\<close>

fun split_by :: "(char \<Rightarrow> bool) \<Rightarrow> string \<Rightarrow> string list" where
  "split_by ws [] = [[]]"
| "split_by ws (c # cs) =
    (if ws c then [] # split_by ws cs
     else (case split_by ws cs of
             [] \<Rightarrow> [[c]]
           | piece # pieces \<Rightarrow> (c # piece) # pieces))"

definition words_by :: "(char \<Rightarrow> bool) \<Rightarrow> string \<Rightarrow> string list" where
  "words_by ws s = filter (\<lambda>w. w \<noteq> []) (split_by ws s)"

definition whitespace :: "char \<Rightarrow> bool" where
  "whitespace c =
    (c \<in> set [CHR 0x09, CHR 0x0A, CHR 0x0B, CHR 0x0C, CHR 0x0D, CHR 0x20, CHR 0xA0])"

text \<open>
  What a page shows: the lines drawn in the regular font, the titles drawn in the bold
  font, each in drawing order. The page group of a file is what one round of the loop
  appends to an empty document.
\<close>

fun line_of :: "draw \<Rightarrow> string list" where
  "line_of (DrawText t x y s f) = (if f = Courier then [t] else [])"
| "line_of (DrawImage x y w h) = []"

fun title_of :: "draw \<Rightarrow> string list" where
  "title_of (DrawText t x y s f) = (if f = CourierBold then [t] else [])"
| "title_of (DrawImage x y w h) = []"

fun page_lines :: "page \<Rightarrow> string list" where
  "page_lines (CopiedPage p) = []"
| "page_lines (NewPage w h ops) = concat (map line_of ops)"

fun page_titles :: "page \<Rightarrow> string list" where
  "page_titles (CopiedPage p) = []"
| "page_titles (NewPage w h ops) = concat (map title_of ops)"

definition filePages :: "lib \<Rightarrow> string \<Rightarrow> upload \<Rightarrow> page list" where
  "filePages L quality f = processFile L quality [] f"




section \<open>Properties of the Text Paginator\<close>

lemma split_by_nonempty: "split_by ws s \<noteq> []"
  by (induction s) (auto split: list.splits)

lemma split_on_nonempty: "split_on sep s \<noteq> []"
  by (induction s) (auto split: list.splits)

lemma words_by_Nil: "words_by ws [] = []"
  by (simp add: words_by_def)

lemma split_by_append_sep:
  "ws c \<Longrightarrow> split_by ws (a @ c # b) = split_by ws a @ split_by ws b"
  by (induction a) (auto split: list.splits simp: split_by_nonempty)

lemma words_by_append_sep:
  "ws c \<Longrightarrow> words_by ws (a @ c # b) = words_by ws a @ words_by ws b"
  by (simp add: words_by_def split_by_append_sep)

lemma split_on_append_sep:
  "split_on sep (a @ sep # b) = split_on sep a @ split_on sep b"
  by (induction a) (auto split: list.splits simp: split_on_nonempty)

lemma split_on_no_sep: "sep \<notin> set a \<Longrightarrow> split_on sep a = [a]"
  by (induction a) auto


text \<open>The words of a text are the words of its pieces, for a separator that is whitespace.\<close>

lemma words_by_split_on:
  "ws sep \<Longrightarrow> concat (map (words_by ws) (split_on sep s)) = words_by ws s"
proof (induction s rule: length_induct)
  case (1 s)
  show ?case
  proof (cases "sep \<in> set s")
    case False
    then show ?thesis by (simp add: split_on_no_sep)
  next
    case True
    then obtain a b where s: "s = a @ sep # b" and a: "sep \<notin> set a"
      by (auto dest: split_list_first)
    have "length b < length s" using s by simp
    with 1 have "concat (map (words_by ws) (split_on sep b)) = words_by ws b" by blast
    with s a 1(2) show ?thesis
      by (simp add: split_on_append_sep split_on_no_sep words_by_append_sep)
  qed
qed

lemma wrapStep_eq:
  "wrapStep wd word (cur, acc) =
    (if cur = [] then (word, acc)
     else if wd (cur @ CHR '' '' # word) fontSize > maxWidth then (word, acc @ [cur])
     else (cur @ CHR '' '' # word, acc))"
  by (simp add: wrapStep_def Let_def)

text \<open>
  The invariant of the inner loop: the words of the pushed lines and of \<open>current\<close> are
  the words of the pieces read so far.
\<close>

lemma wrapStep_words:
  assumes "ws CHR '' ''" and "wrapStep wd word (cur, acc) = (cur', acc')"
  shows "concat (map (words_by ws) (acc' @ [cur'])) =
         concat (map (words_by ws) (acc @ [cur])) @ words_by ws word"
proof (cases "cur = []")
  case True
  with assms(2) show ?thesis by (auto simp: wrapStep_eq words_by_Nil)
next
  case False
  have "words_by ws (cur @ CHR '' '' # word) = words_by ws cur @ words_by ws word"
    using assms(1) by (rule words_by_append_sep)
  with False assms(2) show ?thesis
    by (auto simp: wrapStep_eq split: if_splits)
qed

lemma wrapWords_words:
  assumes "ws CHR '' ''" and "wrapWords wd pieces (cur, acc) = (cur', acc')"
  shows "concat (map (words_by ws) (acc' @ [cur'])) =
         concat (map (words_by ws) (acc @ [cur])) @ concat (map (words_by ws) pieces)"
  using assms(2)
proof (induction pieces arbitrary: cur acc)
  case Nil
  then show ?case by simp
next
  case (Cons word pieces)
  obtain c1 a1 where st: "wrapStep wd word (cur, acc) = (c1, a1)"
    by (cases "wrapStep wd word (cur, acc)")
  with Cons.prems have "wrapWords wd pieces (c1, a1) = (cur', acc')" by simp
  from Cons.IH [OF this] wrapStep_words [of ws wd word cur acc c1 a1] assms(1) st
  show ?case by simp
qed

lemma wrapLine_words:
  assumes "ws CHR '' ''"
  shows "concat (map (words_by ws) (wrapLine wd acc line)) =
         concat (map (words_by ws) acc) @ words_by ws line"
proof (cases "line = []")
  case True
  then show ?thesis by (simp add: wrapLine_def words_by_Nil)
next
  case False
  obtain cur' acc' where w: "wrapWords wd (split_on CHR '' '' line) ([], acc) = (cur', acc')"
    by (cases "wrapWords wd (split_on CHR '' '' line) ([], acc)")
  from wrapWords_words [of ws wd _ "[]" acc cur' acc'] assms w
    words_by_split_on [of ws "CHR '' ''" line]
  have "concat (map (words_by ws) (acc' @ [cur'])) =
        concat (map (words_by ws) acc) @ words_by ws line"
    by (simp add: words_by_Nil)
  with False w show ?thesis
    by (cases "cur' = []") (simp_all add: wrapLine_def words_by_Nil)
qed

lemma foldl_wrapLine_words:
  assumes "ws CHR '' ''"
  shows "concat (map (words_by ws) (foldl (wrapLine wd) acc lines)) =
         concat (map (words_by ws) acc) @ concat (map (words_by ws) lines)"
  using assms by (induction lines arbitrary: acc) (simp_all add: wrapLine_words [of ws])

lemma wrapText_words:
  assumes "ws CHR '' ''" and "ws (CHR 0x0A)"
  shows "concat (map (words_by ws) (wrapText wd text)) = words_by ws text"
  using assms
  by (simp add: wrapText_def foldl_wrapLine_words [of ws] words_by_split_on [of ws])











section \<open>Properties of the pages of a text\<close>

lemma maxLines_val: "maxLines title = (if truthy title then 43 else 46)"
  by (simp add: maxLines_def pageHeight_def margin_def lineHeight_def fontSize_def)


lemma lines_drawLines: "concat (map line_of (drawLines ls y)) = ls"
  by (induction ls arbitrary: y) simp_all

lemma titles_drawLines: "concat (map title_of (drawLines ls y)) = []"
  by (induction ls arbitrary: y) simp_all

lemma page_lines_newTextPage:
  "page_lines (newTextPage title ls i) = take (maxLines title) (drop i ls)"
  by (cases title) (simp_all add: newTextPage_def Let_def drawTitle_def lines_drawLines)

lemma page_titles_newTextPage:
  "page_titles (newTextPage title ls i) =
    (case title of None \<Rightarrow> [] | Some t \<Rightarrow> if i = 0 \<and> t \<noteq> [] then [t] else [])"
  by (cases title) (simp_all add: newTextPage_def Let_def drawTitle_def titles_drawLines)

lemma createPages_lines:
  "concat (map page_lines (createPages title ls i)) = drop i ls"
proof (induction title ls i rule: createPages.induct)
  case (1 title ls i)
  show ?case
  proof (cases "i < length ls")
    case True
    have "take (maxLines title) (drop i ls) @ drop (i + maxLines title) ls = drop i ls"
      by (metis add.commute append_take_drop_id drop_drop)
    with True 1 show ?thesis
      by (subst createPages.simps) (simp add: page_lines_newTextPage)
  next
    case False
    then show ?thesis by (subst createPages.simps) simp
  qed
qed



lemma createPages_nth:
  "k < length (createPages title ls i) \<Longrightarrow>
   createPages title ls i ! k = newTextPage title ls (i + k * maxLines title)
   \<and> i + k * maxLines title < length ls"
proof (induction title ls i arbitrary: k rule: createPages.induct)
  case (1 title ls i)
  show ?case
  proof (cases "i < length ls")
    case True
    note lt = this
    show ?thesis
    proof (cases k)
      case 0
      with lt show ?thesis by (subst createPages.simps) simp
    next
      case (Suc j)
      from "1.prems" lt Suc have "j < length (createPages title ls (i + maxLines title))"
        using createPages.simps [of title ls i] by simp
      from "1.IH" [OF lt this] lt Suc show ?thesis
        by (subst createPages.simps) (simp add: add.assoc add.commute)
    qed
  next
    case False
    with "1.prems" show ?thesis by (subst (asm) createPages.simps) simp
  qed
qed


text \<open>
  Claim C9 says that, with a title, the first page holds
  \<open>floor((pageHeightPt - 2*marginPt - titleReservedPt) / lineHeightPt)\<close> lines and every
  subsequent page \<open>floor((pageHeightPt - 2*marginPt) / lineHeightPt)\<close>, that is 46.
  \<open>maxLines\<close> is computed once, with the 40 points of the title taken off, and the loop
  steps by it on every page: a text of 90 lines under the title \<open>T\<close> gives a second
  page of 43 lines.
\<close>

theorem title_capacity_counterexample:
  "length (page_lines
      (textToPdfPages courier (replicate 89 (CHR 0x0A)) [] (Some ''T'') ! 1)) = 43
   \<and> nat \<lfloor>(pageHeight - 2 * margin) / lineHeight\<rfloor> = 46"
  by code_simp

text \<open>
  Claim C9, amended. With a title supplied (a non-empty string), the title is drawn once,
  in bold, on the first produced page only, and only there the first line starts 40
  points lower; the capacity
  \<open>floor((pageHeightPt - 2*marginPt - 40) / lineHeightPt) = 43\<close>, computed with the title
  space taken off, holds for every page: page \<open>k\<close> carries the wrapped lines
  \<open>43 k\<close> to \<open>43 k + 42\<close>, and every page but the last holds exactly 43 lines.
\<close>

theorem textToPdfPages_title_capacity:
  assumes "t \<noteq> []" and "k < length (textToPdfPages wd body [] (Some t))"
  shows "textToPdfPages wd body [] (Some t) ! k =
      NewPage 612 792
        ((if k = 0 then [DrawText t 50 728 14 CourierBold] else []) @
         drawLines (take 43 (drop (k * 43) (wrapText wd body))) (if k = 0 then 702 else 742))
    \<and> page_lines (textToPdfPages wd body [] (Some t) ! k) =
      take 43 (drop (k * 43) (wrapText wd body))
    \<and> page_titles (textToPdfPages wd body [] (Some t) ! k) = (if k = 0 then [t] else [])
    \<and> (Suc k < length (textToPdfPages wd body [] (Some t)) \<longrightarrow>
      length (page_lines (textToPdfPages wd body [] (Some t) ! k)) = 43)
    \<and> maxLines (Some t) = nat \<lfloor>(pageHeight - 2 * margin - 40) / lineHeight\<rfloor>
    \<and> maxLines (Some t) = 43"
proof -
  let ?ls = "wrapText wd body"
  have tr: "truthy (Some t)" using assms(1) by (simp add: truthy_def)
  then have n: "maxLines (Some t) = 43" by (simp add: maxLines_val)
  have k: "k < length (createPages (Some t) ?ls 0)"
    using assms(2) by (simp add: textToPdfPages_def)
  from createPages_nth [OF k] n
  have nth: "textToPdfPages wd body [] (Some t) ! k = newTextPage (Some t) ?ls (k * 43)"
    and lt: "k * 43 < length ?ls"
    by (simp_all add: textToPdfPages_def)
  have c1: "textToPdfPages wd body [] (Some t) ! k =
      NewPage 612 792
        ((if k = 0 then [DrawText t 50 728 14 CourierBold] else []) @
         drawLines (take 43 (drop (k * 43) (wrapText wd body))) (if k = 0 then 702 else 742))"
    using assms(1) tr
    by (simp add: nth newTextPage_def n drawTitle_def pageWidth_def pageHeight_def margin_def)
  have c2: "page_lines (textToPdfPages wd body [] (Some t) ! k) =
      take 43 (drop (k * 43) (wrapText wd body))"
    by (simp add: nth page_lines_newTextPage n)
  have c3: "page_titles (textToPdfPages wd body [] (Some t) ! k) = (if k = 0 then [t] else [])"
    using assms(1) by (simp add: nth page_titles_newTextPage)
  have c4: "length (page_lines (textToPdfPages wd body [] (Some t) ! k)) = 43"
    if "Suc k < length (textToPdfPages wd body [] (Some t))"
  proof -
    from that have "Suc k < length (createPages (Some t) ?ls 0)"
      by (simp add: textToPdfPages_def)
    from createPages_nth [OF this] n have "Suc k * 43 < length ?ls" by simp
    then show ?thesis by (simp add: nth page_lines_newTextPage n)
  qed
  have c5: "maxLines (Some t) = nat \<lfloor>(pageHeight - 2 * margin - 40) / lineHeight\<rfloor>"
    using tr by (simp add: maxLines_def mult.commute)
  from c1 c2 c3 c4 c5 n show ?thesis by blast
qed

theorem textToPdfPages_title_capacity_witness:
  "length (textToPdfPages courier (replicate 89 (CHR 0x0A)) [] (Some ''T'')) = 3
   \<and> page_lines (textToPdfPages courier (replicate 89 (CHR 0x0A)) [] (Some ''T'') ! 1) =
      take 43 (drop (1 * 43) (wrapText courier (replicate 89 (CHR 0x0A))))
   \<and> page_titles (textToPdfPages courier (replicate 89 (CHR 0x0A)) [] (Some ''T'') ! 1) =
      (if (1::nat) = 0 then [''T''] else [])
   \<and> length (page_lines (textToPdfPages courier (replicate 89 (CHR 0x0A)) [] (Some ''T'') ! 1))
      = 43"
proof -
  have len: "length (textToPdfPages courier (replicate 89 (CHR 0x0A)) [] (Some ''T'')) = 3"
    by code_simp
  have h1: "''T'' \<noteq> []" by simp
  have h2: "1 < length (textToPdfPages courier (replicate 89 (CHR 0x0A)) [] (Some ''T''))"
    by (simp add: len)
  have h3: "Suc 1 < length (textToPdfPages courier (replicate 89 (CHR 0x0A)) [] (Some ''T''))"
    by (simp add: len)
  from textToPdfPages_title_capacity [OF h1 h2] h3 len show ?thesis by blast
qed

section \<open>Properties of the handler\<close>

lemma convert_append:
  "convert L q merged f =
    (case convert L q [] f of Inl e \<Rightarrow> Inl e | Inr g \<Rightarrow> Inr (merged @ g))"
proof (cases "getFileType (originalname f)")
  case None
  then show ?thesis by (simp add: convert_def)
next
  case (Some t)
  then show ?thesis
    by (cases t) (simp_all add: convert_def textToPdfPages_def split: sum.splits prod.splits)
qed

lemma processFile_append: "processFile L q merged f = merged @ filePages L q f"
proof (cases "convert L q [] f")
  case (Inl e)
  then have "convert L q merged f = Inl e" by (simp add: convert_append [of L q merged f])
  with Inl show ?thesis by (simp add: filePages_def processFile_def textToPdfPages_def)
next
  case (Inr g)
  then have "convert L q merged f = Inr (merged @ g)"
    by (simp add: convert_append [of L q merged f])
  with Inr show ?thesis by (simp add: filePages_def processFile_def)
qed

lemma foldl_processFile:
  "foldl (processFile L q) acc files = acc @ concat (map (filePages L q) files)"
proof (induction files arbitrary: acc)
  case Nil
  then show ?case by simp
next
  case (Cons f files)
  show ?case by (simp add: Cons.IH processFile_append [of L q acc f])
qed

lemma merge_nonempty:
  "files \<noteq> [] \<Longrightarrow>
   merge L q files =
     Response 200 ''application/pdf'' (PdfDocument (concat (map (filePages L q) files)))"
  by (simp add: merge_def foldl_processFile)


lemma filePages_pdf:
  "getFileType (originalname f) = Some Pdf \<Longrightarrow> load_pdf L (buffer f) = Inr ps \<Longrightarrow>
   filePages L q f = map CopiedPage ps"
  by (simp add: filePages_def processFile_def convert_def)

lemma filePages_text:
  assumes "getFileType (originalname f) = Some t" "t \<noteq> Pdf" "t \<noteq> Image"
    and "extractText L t (buffer f) = Inr body"
  shows "filePages L q f =
    createPages (Some (originalname f)) (wrapText (widthOfTextAtSize L) body) 0"
  using assms by (cases t) (simp_all add: filePages_def processFile_def convert_def textToPdfPages_def)





text \<open>
  Claim C3. For every non-empty batch, the handler answers 200 with the document whose
  pages are the page groups of the files, concatenated in input order: the pages of
  file \<open>i\<close> come after all pages of the files before it and before all pages of the
  files after it. A page group depends on its file only (and on the quality and the
  libraries), so exchanging two files of the batch exchanges their page groups and
  moves nothing else. Within a group the order of the source is kept: a PDF gives its
  pages in source order, and a text-like file gives pages whose lines, read page after
  page, are the wrapped lines of the extracted text, with its words in their order.
\<close>

theorem merge_keeps_input_order:
  "(files \<noteq> [] \<longrightarrow>
      merge L q files =
        Response 200 ''application/pdf'' (PdfDocument (concat (map (filePages L q) files))))
   \<and> (i < length files \<longrightarrow>
      concat (map (filePages L q) files) =
        concat (map (filePages L q) (take i files)) @ filePages L q (files ! i) @
        concat (map (filePages L q) (drop (Suc i) files)))
   \<and> (i < length files \<and> j < length files \<longrightarrow>
      map (filePages L q) (files[i := files ! j, j := files ! i]) =
        (map (filePages L q) files)
          [i := map (filePages L q) files ! j, j := map (filePages L q) files ! i])
   \<and> (getFileType (originalname f) = Some Pdf \<and> load_pdf L (buffer f) = Inr ps \<longrightarrow>
      filePages L q f = map CopiedPage ps)
   \<and> (getFileType (originalname f) = Some t \<and> t \<noteq> Pdf \<and> t \<noteq> Image
        \<and> extractText L t (buffer f) = Inr body \<longrightarrow>
      concat (map page_lines (filePages L q f)) = wrapText (widthOfTextAtSize L) body
      \<and> (ws CHR '' '' \<and> ws (CHR 0x0A) \<longrightarrow>
           concat (map (words_by ws) (concat (map page_lines (filePages L q f)))) =
             words_by ws body))"
proof (intro conjI impI)
  assume "files \<noteq> []"
  then show "merge L q files =
      Response 200 ''application/pdf'' (PdfDocument (concat (map (filePages L q) files)))"
    by (rule merge_nonempty)
next
  assume "i < length files"
  then have "files = take i files @ files ! i # drop (Suc i) files"
    by (rule id_take_nth_drop)
  then have "map (filePages L q) files =
      map (filePages L q) (take i files) @ filePages L q (files ! i) #
      map (filePages L q) (drop (Suc i) files)"
    by (metis list.simps(9) map_append)
  then show "concat (map (filePages L q) files) =
      concat (map (filePages L q) (take i files)) @ filePages L q (files ! i) @
      concat (map (filePages L q) (drop (Suc i) files))"
    by simp
next
  assume "i < length files \<and> j < length files"
  then show "map (filePages L q) (files[i := files ! j, j := files ! i]) =
      (map (filePages L q) files)
        [i := map (filePages L q) files ! j, j := map (filePages L q) files ! i]"
    by (simp add: map_update)
next
  assume "getFileType (originalname f) = Some Pdf \<and> load_pdf L (buffer f) = Inr ps"
  then show "filePages L q f = map CopiedPage ps" by (simp add: filePages_pdf)
next
  assume a: "getFileType (originalname f) = Some t \<and> t \<noteq> Pdf \<and> t \<noteq> Image
      \<and> extractText L t (buffer f) = Inr body"
  then have "filePages L q f =
      createPages (Some (originalname f)) (wrapText (widthOfTextAtSize L) body) 0"
    using filePages_text [of f t L body q] by blast
  then show l: "concat (map page_lines (filePages L q f)) = wrapText (widthOfTextAtSize L) body"
    by (simp add: createPages_lines)
  assume "ws CHR '' '' \<and> ws (CHR 0x0A)"
  then show "concat (map (words_by ws) (concat (map page_lines (filePages L q f)))) =
      words_by ws body"
    using wrapText_words [of ws "widthOfTextAtSize L" body] l by simp
qed

theorem merge_keeps_input_order_witness:
  "merge demo_lib ''medium''
      [\<lparr>originalname = ''b.pdf'', buffer = ''B''\<rparr>,
       \<lparr>originalname = ''a.txt'', buffer = ''one two''\<rparr>] =
     Response 200 ''application/pdf''
       (PdfDocument
         (filePages demo_lib ''medium'' \<lparr>originalname = ''b.pdf'', buffer = ''B''\<rparr> @
          filePages demo_lib ''medium'' \<lparr>originalname = ''a.txt'', buffer = ''one two''\<rparr>))
   \<and> map (filePages demo_lib ''medium'')
       [\<lparr>originalname = ''a.txt'', buffer = ''one two''\<rparr>,
        \<lparr>originalname = ''b.pdf'', buffer = ''B''\<rparr>] =
     [filePages demo_lib ''medium'' \<lparr>originalname = ''a.txt'', buffer = ''one two''\<rparr>,
      filePages demo_lib ''medium'' \<lparr>originalname = ''b.pdf'', buffer = ''B''\<rparr>]
   \<and> filePages demo_lib ''medium'' \<lparr>originalname = ''b.pdf'', buffer = ''B''\<rparr> =
     [CopiedPage ''B#1'', CopiedPage ''B#2'']
   \<and> concat (map page_lines
       (filePages demo_lib ''medium'' \<lparr>originalname = ''a.txt'', buffer = ''one two''\<rparr>)) =
     [''one two'']
   \<and> concat (map (words_by whitespace) (concat (map page_lines
       (filePages demo_lib ''medium'' \<lparr>originalname = ''a.txt'', buffer = ''one two''\<rparr>)))) =
     [''one'', ''two'']"
proof -
  let ?b = "\<lparr>originalname = ''b.pdf'', buffer = ''B''\<rparr>"
  let ?a = "\<lparr>originalname = ''a.txt'', buffer = ''one two''\<rparr>"
  let ?files = "[?b, ?a]"
  note t = merge_keeps_input_order
    [of ?files demo_lib "''medium''" 0 1 ?b "[''B#1'', ''B#2'']" Text "''one two''" whitespace]
  note u = merge_keeps_input_order
    [of ?files demo_lib "''medium''" 0 1 ?a "[''B#1'', ''B#2'']" Text "''one two''" whitespace]
  have h1: "?files \<noteq> []" by simp
  have h2: "(0::nat) < length ?files \<and> 1 < length ?files" by simp
  have h3: "getFileType (originalname ?b) = Some Pdf
      \<and> load_pdf demo_lib (buffer ?b) = Inr [''B#1'', ''B#2'']" by code_simp
  have h4: "getFileType (originalname ?a) = Some Text \<and> Text \<noteq> Pdf \<and> Text \<noteq> Image
      \<and> extractText demo_lib Text (buffer ?a) = Inr ''one two''" by code_simp
  have h5: "whitespace CHR '' '' \<and> whitespace (CHR 0x0A)" by (simp add: whitespace_def)
  from t h1 have c1: "merge demo_lib ''medium'' ?files =
      Response 200 ''application/pdf''
        (PdfDocument (concat (map (filePages demo_lib ''medium'') ?files)))" by blast
  from t h2 have c2: "map (filePages demo_lib ''medium'') (?files[0 := ?files ! 1, 1 := ?files ! 0]) =
      (map (filePages demo_lib ''medium'') ?files)
        [0 := map (filePages demo_lib ''medium'') ?files ! 1,
         1 := map (filePages demo_lib ''medium'') ?files ! 0]" by blast
  from t h3 have c3: "filePages demo_lib ''medium'' ?b = map CopiedPage [''B#1'', ''B#2'']"
    by blast
  from u h4 have c4: "concat (map page_lines (filePages demo_lib ''medium'' ?a)) =
      wrapText (widthOfTextAtSize demo_lib) ''one two''" by blast
  from u h4 h5 have c5: "concat (map (words_by whitespace)
      (concat (map page_lines (filePages demo_lib ''medium'' ?a)))) =
      words_by whitespace ''one two''" by blast
  have e1: "wrapText (widthOfTextAtSize demo_lib) ''one two'' = [''one two'']" by code_simp
  have e2: "words_by whitespace ''one two'' = [''one'', ''two'']" by code_simp
  from c1 c2 c3 c4 c5 e1 e2 show ?thesis by simp
qed








text \<open>
  Claim C1 on the code. A batch of one encrypted PDF and two text files: the error of
  \<open>PDFDocument.load\<close> is thrown inside the inner \<open>try\<close>, whose \<open>catch\<close> turns it into an
  error notice, so the answer is 200 with a PDF of three pages. The answer 500 with the
  sentence about encryption is what the outer \<open>catch\<close> gives for that message, and the
  error does not reach it.
\<close>

theorem merge_encrypted_pdf_gives_notice:
  "merge demo_lib ''medium''
     [\<lparr>originalname = ''locked.pdf'', buffer = ''LOCKED''\<rparr>,
      \<lparr>originalname = ''a.txt'', buffer = ''alpha''\<rparr>,
      \<lparr>originalname = ''b.txt'', buffer = ''beta''\<rparr>] =
   Response 200 ''application/pdf''
     (PdfDocument
       [NewPage 612 792
         [DrawText ''Error'' 50 728 14 CourierBold,
          DrawText ''Error processing file: locked.pdf'' 50 692 10 Courier,
          DrawText [] 50 677 10 Courier,
          DrawText ''Input document to PDFDocument.load is encrypted.'' 50 662 10 Courier],
        NewPage 612 792
         [DrawText ''a.txt'' 50 728 14 CourierBold, DrawText ''alpha'' 50 692 10 Courier],
        NewPage 612 792
         [DrawText ''b.txt'' 50 728 14 CourierBold, DrawText ''beta'' 50 692 10 Courier]])
   \<and> mergeCatch ''Input document to PDFDocument.load is encrypted.'' =
     Response 500 ''text/plain''
       (Plain ''One or more PDFs are encrypted. Remove password protection and try again.'')"
  by code_simp

section \<open>Properties of the image placement\<close>









section \<open>Properties of the Natural-Order Sequencer\<close>

lemma round_double_cases: "(\<exists>v. round_double n = Fin v) \<or> round_double n = PInf"
  by (simp add: round_double_def Let_def)

lemma round_double_pos:
  assumes "0 < n"
  shows "(\<exists>v. 0 < v \<and> round_double n = Fin v) \<or> round_double n = PInf"
proof (cases "n < 2 ^ 53")
  case True
  with assms show ?thesis by (simp add: round_double_def)
next
  case False
  define k where "k = floorlog 2 n - 53"
  define q where "q = n div 2 ^ k"
  define r where "r = n mod 2 ^ k"
  define q' where "q' = (if 2 * r > 2 ^ k \<or> (2 * r = 2 ^ k \<and> odd q) then q + 1 else q)"
  have "(2::nat) ^ (floorlog 2 n - 1) \<le> n" using floorlog_bounds [of n 2] assms by simp
  moreover have "(2::nat) ^ k \<le> 2 ^ (floorlog 2 n - 1)"
    by (rule power_increasing) (simp_all add: k_def)
  ultimately have "2 ^ k \<le> n" by (meson order_trans)
  then have "0 < q" by (simp add: q_def div_greater_zero_iff)
  then have "0 < q'" by (simp add: q'_def)
  then have v: "0 < q' * 2 ^ k" by simp
  have "round_double n = (if q' * 2 ^ k \<ge> 2 ^ 1024 then PInf else Fin (int (q' * 2 ^ k)))"
    using False by (simp add: round_double_def Let_def k_def q_def r_def q'_def)
  with v show ?thesis by auto
qed

lemma round_double_0: "round_double 0 = Fin 0"
  by (simp add: round_double_def)

lemma round_int_sign: "sign (round_int z) = sgn z \<and> (truthy_num (round_int z) \<longleftrightarrow> z \<noteq> 0)"
proof (cases "z = 0")
  case True
  then show ?thesis by (simp add: round_int_def round_double_0)
next
  case False
  show ?thesis
  proof (cases "0 < z")
    case True
    then have "0 < nat z" by simp
    from round_double_pos [OF this] True show ?thesis
      by (auto simp: round_int_def)
  next
    case neg: False
    with False have "0 < nat (- z)" by simp
    from round_double_pos [OF this] neg False show ?thesis
      by (auto simp: round_int_def)
  qed
qed

lemma round_int_exact: "\<bar>z\<bar> < 2 ^ 53 \<Longrightarrow> round_int z = Fin z"
  by (auto simp: round_int_def round_double_def)

lemma toNumber_cases: "(\<exists>v. toNumber k = Fin v) \<or> toNumber k = PInf"
  using round_double_cases by (cases k) (simp_all add: toNumber_def)

lemma compareToken_sign:
  assumes "\<And>s. lc s s = 0"
  shows "sign (compareToken lc an bn) = asgn lc (abs_tok an) (abs_tok bn)
    \<and> (truthy_num (compareToken lc an bn) \<longleftrightarrow> asgn lc (abs_tok an) (abs_tok bn) \<noteq> 0)"
proof -
  consider (ff) a b where "toNumber (fst an) = Fin a" "toNumber (fst bn) = Fin b"
    | (fi) a where "toNumber (fst an) = Fin a" "toNumber (fst bn) = PInf"
    | (if') b where "toNumber (fst an) = PInf" "toNumber (fst bn) = Fin b"
    | (ii) "toNumber (fst an) = PInf" "toNumber (fst bn) = PInf"
    using toNumber_cases [of "fst an"] toNumber_cases [of "fst bn"] by blast
  then show ?thesis
  proof cases
    case ff
    show ?thesis
    proof (cases "a = b")
      case True
      with ff show ?thesis
        by (simp add: compareToken_def abs_tok_def round_int_def round_double_0 sgn_if)
    next
      case False
      with ff round_int_sign [of "a - b"] show ?thesis
        by (simp add: compareToken_def abs_tok_def sgn_if)
    qed
  next
    case fi
    then show ?thesis by (simp add: compareToken_def abs_tok_def)
  next
    case if'
    then show ?thesis by (simp add: compareToken_def abs_tok_def)
  next
    case ii
    then show ?thesis by (simp add: compareToken_def abs_tok_def sgn_if)
  qed
qed

lemma compareTokens_sign:
  assumes "\<And>s. lc s s = 0"
  shows "sign (compareTokens lc ax bx) = lexsgn (asgn lc) (map abs_tok ax) (map abs_tok bx)"
proof (induction ax arbitrary: bx)
  case Nil
  then show ?case by simp
next
  case (Cons an ax)
  show ?case
  proof (cases bx)
    case Nil
    then show ?thesis by simp
  next
    case (Cons bn bx')
    have t: "sign (compareToken lc an bn) = asgn lc (abs_tok an) (abs_tok bn)
      \<and> (truthy_num (compareToken lc an bn) \<longleftrightarrow> asgn lc (abs_tok an) (abs_tok bn) \<noteq> 0)"
      using assms by (rule compareToken_sign)
    show ?thesis
    proof (cases "truthy_num (compareToken lc an bn)")
      case True
      with t Cons show ?thesis by (simp add: Let_def)
    next
      case False
      with t Cons Cons.IH [of bx'] show ?thesis by (simp add: Let_def)
    qed
  qed
qed

text \<open>The lexicographic sign of a total preorder is a total preorder.\<close>

lemma lexsgn_refl:
  assumes "\<And>x. s x x = 0"
  shows "lexsgn s xs xs = 0"
  by (induction xs) (simp_all add: assms)

lemma lexsgn_anti:
  assumes "\<And>x y. s y x = - s x y"
  shows "lexsgn s ys xs = - lexsgn s xs ys"
proof (induction xs arbitrary: ys)
  case Nil
  then show ?case by (cases ys) (simp_all add: sgn_if)
next
  case (Cons x xs)
  show ?case
  proof (cases ys)
    case Nil
    then show ?thesis by (simp add: sgn_if)
  next
    case (Cons y ys')
    with Cons.IH [of ys'] assms [of x y] show ?thesis by simp
  qed
qed

lemma lexsgn_trans:
  assumes anti: "\<And>x y. s y x = - s x y"
    and trans: "\<And>x y z. s x y \<le> 0 \<Longrightarrow> s y z \<le> 0 \<Longrightarrow> s x z \<le> 0"
  shows "lexsgn s xs ys \<le> 0 \<Longrightarrow> lexsgn s ys zs \<le> 0 \<Longrightarrow> lexsgn s xs zs \<le> 0"
proof (induction xs arbitrary: ys zs)
  case Nil
  then show ?case by (cases zs) (simp_all add: sgn_if)
next
  case (Cons x xs)
  note prems = Cons.prems
  show ?case
  proof (cases ys)
    case Nil
    with prems show ?thesis by (simp add: sgn_if split: if_splits)
  next
    case ys: (Cons y ys')
    show ?thesis
    proof (cases zs)
      case Nil
      with prems ys show ?thesis by (simp add: sgn_if split: if_splits)
    next
      case zs: (Cons z zs')
      have xy: "s x y \<le> 0" using prems(1) ys by (simp split: if_splits)
      have yz: "s y z \<le> 0" using prems(2) ys zs by (simp split: if_splits)
      have xz: "s x z \<le> 0" using xy yz by (rule trans)
      show ?thesis
      proof (cases "s x z = 0")
        case False
        with xz zs show ?thesis by simp
      next
        case True
        then have zx: "s z x \<le> 0" using anti [of x z] by simp
        have "s z y \<le> 0" using zx xy by (rule trans)
        then have yz0: "s y z = 0" using yz anti [of y z] by simp
        have "s y x \<le> 0" using yz zx by (rule trans)
        then have xy0: "s x y = 0" using xy anti [of x y] by simp
        from prems(1) ys xy0 have 1: "lexsgn s xs ys' \<le> 0" by simp
        from prems(2) ys zs yz0 have 2: "lexsgn s ys' zs' \<le> 0" by simp
        from Cons.IH [OF 1 2] True zs show ?thesis by simp
      qed
    qed
  qed
qed

text \<open>The order on the elements.\<close>

lemma asgn_refl: "(\<And>s. lc s s = 0) \<Longrightarrow> asgn lc x x = 0"
  by (cases x) simp_all

lemma asgn_anti:
  assumes "\<And>s t. sgn (lc t s) = - sgn (lc s t)"
  shows "asgn lc y x = - asgn lc x y"
proof (cases x; cases y)
  fix a s b t
  assume "x = ANum a s" "y = ANum b t"
  then show ?thesis using assms [of t s] by (simp add: sgn_if)
next
  fix s t
  assume "x = ATxt s" "y = ATxt t"
  then show ?thesis using assms [of t s] by simp
qed simp_all

lemma sgn_le_0_iff: "sgn (i::int) \<le> 0 \<longleftrightarrow> i \<le> 0"
  by (simp add: sgn_if)

lemma asgn_trans:
  assumes trans: "\<And>s t u. lc s t \<le> 0 \<Longrightarrow> lc t u \<le> 0 \<Longrightarrow> lc s u \<le> 0"
  shows "asgn lc x y \<le> 0 \<Longrightarrow> asgn lc y z \<le> 0 \<Longrightarrow> asgn lc x z \<le> 0"
proof (cases x; cases y; cases z)
  fix a s b t c u
  assume x: "x = ANum a s" and y: "y = ANum b t" and z: "z = ANum c u"
  assume 1: "asgn lc x y \<le> 0" and 2: "asgn lc y z \<le> 0"
  show "asgn lc x z \<le> 0"
  proof (cases "a = b \<and> b = c")
    case True
    with 1 2 x y z have "lc s t \<le> 0" "lc t u \<le> 0" by (simp_all add: sgn_le_0_iff)
    then have "lc s u \<le> 0" by (rule trans)
    with True x z show ?thesis by (simp add: sgn_le_0_iff)
  next
    case False
    with 1 2 x y z show ?thesis by (auto simp: sgn_if split: if_splits)
  qed
next
  fix s t u
  assume x: "x = ATxt s" and y: "y = ATxt t" and z: "z = ATxt u"
  assume 1: "asgn lc x y \<le> 0" and 2: "asgn lc y z \<le> 0"
  from 1 2 x y z have "lc s t \<le> 0" "lc t u \<le> 0" by (simp_all add: sgn_le_0_iff)
  then have "lc s u \<le> 0" by (rule trans)
  with x z show "asgn lc x z \<le> 0" by (simp add: sgn_le_0_iff)
qed (auto simp: sgn_if)

lemma tokens_head_digit:
  "is_digit c \<Longrightarrow> \<exists>d e ts. tokens (c # cs) = (Digits d, e) # ts"
  by (auto split: list.splits prod.splits key.splits)

lemma tokens_head_other:
  "\<not> is_digit c \<Longrightarrow> \<exists>s ts. tokens (c # cs) = (Infinity, s) # ts"
  by (auto split: list.splits prod.splits key.splits)

lemma tokens_digits_then:
  assumes "d \<noteq> []" "\<forall>c \<in> set d. is_digit c" "s = [] \<or> \<not> is_digit (hd s)"
  shows "tokens (d @ s) = (Digits d, []) # tokens s"
  using assms(1,2)
proof (induction d)
  case Nil
  then show ?case by simp
next
  case (Cons c d)
  show ?case
  proof (cases "d = []")
    case True
    show ?thesis
    proof (cases s)
      case Nil
      with True Cons.prems show ?thesis by simp
    next
      case (Cons x xs)
      with assms(3) have "\<not> is_digit x" by simp
      from tokens_head_other [OF this, of xs] obtain t ts
        where "tokens (x # xs) = (Infinity, t) # ts" by blast
      with True Cons Cons.prems show ?thesis by simp
    qed
  next
    case False
    with Cons have "tokens (d @ s) = (Digits d, []) # tokens s" by simp
    with Cons.prems show ?thesis by simp
  qed
qed

lemma tokens_others_then:
  assumes "p \<noteq> []" "\<forall>c \<in> set p. \<not> is_digit c" "s = [] \<or> is_digit (hd s)"
  shows "tokens (p @ s) = (Infinity, p) # tokens s"
  using assms(1,2)
proof (induction p)
  case Nil
  then show ?case by simp
next
  case (Cons c p)
  show ?case
  proof (cases "p = []")
    case True
    show ?thesis
    proof (cases s)
      case Nil
      with True Cons.prems show ?thesis by simp
    next
      case (Cons x xs)
      with assms(3) have "is_digit x" by simp
      from tokens_head_digit [OF this, of xs] obtain d e ts
        where "tokens (x # xs) = (Digits d, e) # ts" by blast
      with True Cons Cons.prems show ?thesis by simp
    qed
  next
    case False
    with Cons have "tokens (p @ s) = (Infinity, p) # tokens s" by simp
    with Cons.prems show ?thesis by simp
  qed
qed

lemma compareToken_same_text:
  "lc p p = 0 \<Longrightarrow> compareToken lc (Infinity, p) (Infinity, p) = Fin 0"
  by (simp add: compareToken_def toNumber_def)

lemma compareToken_small_runs:
  assumes "decimal d1 < 2 ^ 53" "decimal d2 < 2 ^ 53" "decimal d1 \<noteq> decimal d2"
  shows "compareToken lc (Digits d1, e1) (Digits d2, e2) =
    Fin (int (decimal d1) - int (decimal d2))"
proof -
  have "\<bar>int (decimal d1) - int (decimal d2)\<bar> < 2 ^ 53" using assms(1,2) by auto
  then have "round_int (int (decimal d1) - int (decimal d2)) =
      Fin (int (decimal d1) - int (decimal d2))"
    by (rule round_int_exact)
  then show ?thesis
    using assms by (simp add: compareToken_def toNumber_def round_double_def)
qed

lemma naturalSort_numeric_run:
  assumes "lc p p = 0" "\<forall>c \<in> set p. \<not> is_digit c"
    and "d1 \<noteq> []" "\<forall>c \<in> set d1. is_digit c" "d2 \<noteq> []" "\<forall>c \<in> set d2. is_digit c"
    and "s1 = [] \<or> \<not> is_digit (hd s1)" "s2 = [] \<or> \<not> is_digit (hd s2)"
    and "decimal d1 < 2 ^ 53" "decimal d2 < 2 ^ 53" "decimal d1 \<noteq> decimal d2"
  shows "naturalSort lc (p @ d1 @ s1) (p @ d2 @ s2) =
    Fin (int (decimal d1) - int (decimal d2))"
proof -
  have t1: "tokens (d1 @ s1) = (Digits d1, []) # tokens s1"
    using assms(3,4,7) by (rule tokens_digits_then)
  have t2: "tokens (d2 @ s2) = (Digits d2, []) # tokens s2"
    using assms(5,6,8) by (rule tokens_digits_then)
  have c: "compareToken lc (Digits d1, []) (Digits d2, []) =
      Fin (int (decimal d1) - int (decimal d2))"
    using assms(9,10,11) by (rule compareToken_small_runs)
  have ne: "int (decimal d1) - int (decimal d2) \<noteq> 0" using assms(11) by simp
  show ?thesis
  proof (cases "p = []")
    case True
    with t1 t2 c ne show ?thesis by (simp add: naturalSort_def)
  next
    case False
    have h1: "d1 @ s1 = [] \<or> is_digit (hd (d1 @ s1))" using assms(3,4) by (cases d1) simp_all
    have h2: "d2 @ s2 = [] \<or> is_digit (hd (d2 @ s2))" using assms(5,6) by (cases d2) simp_all
    have p1: "tokens (p @ d1 @ s1) = (Infinity, p) # tokens (d1 @ s1)"
      using False assms(2) h1 by (rule tokens_others_then)
    have p2: "tokens (p @ d2 @ s2) = (Infinity, p) # tokens (d2 @ s2)"
      using False assms(2) h2 by (rule tokens_others_then)
    from p1 p2 t1 t2 c ne compareToken_same_text [of lc p] assms(1) show ?thesis
      by (simp add: naturalSort_def)
  qed
qed

lemma compareTokens_same:
  assumes "\<And>s. lc s s = 0"
  shows "compareTokens lc ax ax = Fin 0"
proof (induction ax)
  case Nil
  then show ?case by simp
next
  case (Cons an ax)
  have "compareToken lc an an = Fin 0"
    using toNumber_cases [of "fst an"] assms
    by (auto simp: compareToken_def round_int_def round_double_0)
  with Cons show ?case by simp
qed

lemma ordinalCompare_refl: "ordinalCompare s s = 0"
  by (induction s) simp_all

lemma ordinalCompare_anti: "sgn (ordinalCompare t s) = - sgn (ordinalCompare s t)"
proof (induction s arbitrary: t)
  case Nil
  then show ?case by (cases t) simp_all
next
  case (Cons x xs)
  then show ?case by (cases t) simp_all
qed

lemma ordinalCompare_trans:
  "ordinalCompare s t \<le> 0 \<Longrightarrow> ordinalCompare t u \<le> 0 \<Longrightarrow> ordinalCompare s u \<le> 0"
proof (induction s arbitrary: t u)
  case Nil
  then show ?case by (cases u) simp_all
next
  case (Cons x xs)
  show ?case
  proof (cases t)
    case Nil
    with Cons.prems show ?thesis by simp
  next
    case t: (Cons y ys)
    show ?thesis
    proof (cases u)
      case Nil
      with Cons.prems t show ?thesis by (simp split: if_splits)
    next
      case u: (Cons z zs)
      show ?thesis
      proof (cases "(of_char x :: nat) = of_char y \<and> (of_char y :: nat) = of_char z")
        case True
        with Cons.prems t u have "ordinalCompare xs ys \<le> 0" "ordinalCompare ys zs \<le> 0"
          by simp_all
        then have "ordinalCompare xs zs \<le> 0" by (rule Cons.IH)
        with True u show ?thesis by simp
      next
        case False
        with Cons.prems t u show ?thesis by (auto split: if_splits)
      qed
    qed
  qed
qed

lemma collation_ordinalCompare: "collation ordinalCompare"
  unfolding collation_def
  using ordinalCompare_refl ordinalCompare_anti ordinalCompare_trans by blast

lemma floorlog2_eqI': "0 < w \<Longrightarrow> 2 ^ (w - 1) \<le> n \<Longrightarrow> n < 2 ^ w \<Longrightarrow> floorlog 2 n = w"
  by (simp add: floorlog_geI floorlog_leI order_antisym)

text \<open>
  Claim C6 says that numeric runs compare by integer value. The runs are subtracted as
  JavaScript numbers: the runs \<open>9007199254740993\<close> and \<open>9007199254740992\<close> (\<open>2^53 + 1\<close>
  and \<open>2^53\<close>) denote different integers and convert to the same double, so the two
  strings compare as equal.
\<close>

theorem naturalSort_long_runs_counterexample:
  "decimal ''9007199254740993'' = 9007199254740993
   \<and> decimal ''9007199254740992'' = 9007199254740992
   \<and> naturalSort ordinalCompare ''9007199254740993'' ''9007199254740992'' = Fin 0"
proof -
  have f1: "floorlog 2 9007199254740993 = 54" by (rule floorlog2_eqI') simp_all
  have f2: "floorlog 2 9007199254740992 = 54" by (rule floorlog2_eqI') simp_all
  have r1: "round_double 9007199254740993 = Fin 9007199254740992"
    by (simp add: round_double_def f1 Let_def)
  have r2: "round_double 9007199254740992 = Fin 9007199254740992"
    by (simp add: round_double_def f2 Let_def)
  have r0: "round_double 0 = Fin 0" by (simp add: round_double_def)
  have d1: "decimal ''9007199254740993'' = 9007199254740993" by (simp add: decimal_def)
  have d2: "decimal ''9007199254740992'' = 9007199254740992" by (simp add: decimal_def)
  have t1: "tokens ''9007199254740993'' = [(Digits ''9007199254740993'', [])]"
    by (simp add: is_digit_def)
  have t2: "tokens ''9007199254740992'' = [(Digits ''9007199254740992'', [])]"
    by (simp add: is_digit_def)
  have "naturalSort ordinalCompare ''9007199254740993'' ''9007199254740992'' = Fin 0"
    by (simp only: naturalSort_def t1 t2)
       (simp add: compareToken_def toNumber_def d1 d2 r1 r2 round_int_def r0)
  with d1 d2 show ?thesis by simp
qed

text \<open>
  Claim C6, amended. For a \<open>localeCompare\<close> that is a collation, the comparator is a
  total preorder on strings: \<open>compare(a, a)\<close> is 0; \<open>compare(a, b)\<close> and \<open>compare(b, a)\<close>
  have opposite signs; the order is transitive; and when \<open>compare(a, b)\<close> is 0 the two
  strings are order-equivalent, that is, they compare alike with every third string.
  Numeric runs compare by their values as JavaScript numbers, which are their integer
  values below \<open>2^53\<close>: after a common prefix without digits, two different runs of
  digits below \<open>2^53\<close> give the difference of their integer values, so
  \<open>compare("file2.txt", "file10.txt")\<close> is \<open>-8\<close>, below 0.
\<close>

theorem naturalSort_total_preorder:
  assumes "collation lc"
  shows "naturalSort lc a a = Fin 0
    \<and> sign (naturalSort lc b a) = - sign (naturalSort lc a b)
    \<and> (sign (naturalSort lc a b) \<le> 0 \<and> sign (naturalSort lc b c) \<le> 0 \<longrightarrow>
         sign (naturalSort lc a c) \<le> 0)
    \<and> (sign (naturalSort lc a b) = 0 \<longrightarrow>
         sign (naturalSort lc a c) = sign (naturalSort lc b c))
    \<and> ((\<forall>ch \<in> set p. \<not> is_digit ch)
        \<and> d1 \<noteq> [] \<and> (\<forall>ch \<in> set d1. is_digit ch) \<and> d2 \<noteq> [] \<and> (\<forall>ch \<in> set d2. is_digit ch)
        \<and> (s1 = [] \<or> \<not> is_digit (hd s1)) \<and> (s2 = [] \<or> \<not> is_digit (hd s2))
        \<and> decimal d1 < 2 ^ 53 \<and> decimal d2 < 2 ^ 53 \<and> decimal d1 \<noteq> decimal d2 \<longrightarrow>
         naturalSort lc (p @ d1 @ s1) (p @ d2 @ s2) =
           Fin (int (decimal d1) - int (decimal d2)))
    \<and> naturalSort lc ''file2.txt'' ''file10.txt'' = Fin (- 8)
    \<and> naturalSort lc ''a'' ''a'' = Fin 0"
proof -
  have refl: "\<And>s. lc s s = 0"
    and anti: "\<And>s t. sgn (lc t s) = - sgn (lc s t)"
    and trans: "\<And>s t u. lc s t \<le> 0 \<Longrightarrow> lc t u \<le> 0 \<Longrightarrow> lc s u \<le> 0"
    using assms unfolding collation_def by blast+
  let ?S = "\<lambda>x y. sign (naturalSort lc x y)"
  have S: "\<And>x y. ?S x y = lexsgn (asgn lc) (map abs_tok (tokens x)) (map abs_tok (tokens y))"
    by (simp add: naturalSort_def compareTokens_sign [OF refl])
  have a_anti: "\<And>x y. asgn lc y x = - asgn lc x y"
    using anti by (rule asgn_anti)
  have a_trans: "\<And>x y z. asgn lc x y \<le> 0 \<Longrightarrow> asgn lc y z \<le> 0 \<Longrightarrow> asgn lc x z \<le> 0"
    using trans by (rule asgn_trans)
  have S_anti: "\<And>x y. ?S y x = - ?S x y"
    unfolding S using a_anti by (rule lexsgn_anti)
  have S_trans: "\<And>x y z. ?S x y \<le> 0 \<Longrightarrow> ?S y z \<le> 0 \<Longrightarrow> ?S x z \<le> 0"
    unfolding S using a_anti a_trans by (rule lexsgn_trans)
  have c1: "naturalSort lc a a = Fin 0"
    by (simp add: naturalSort_def compareTokens_same [OF refl])
  have c2: "?S b a = - ?S a b" by (rule S_anti)
  have c3: "?S a b \<le> 0 \<and> ?S b c \<le> 0 \<longrightarrow> ?S a c \<le> 0" using S_trans by blast
  have c4: "?S a c = ?S b c" if e: "?S a b = 0"
  proof -
    have ba: "?S b a = 0" using e S_anti [of a b] by simp
    have 1: "?S a c \<le> 0 \<longleftrightarrow> ?S b c \<le> 0"
      using S_trans [of b a c] S_trans [of a b c] e ba by auto
    have 2: "?S c a \<le> 0 \<longleftrightarrow> ?S c b \<le> 0"
      using S_trans [of c a b] S_trans [of c b a] e ba by auto
    have r: "\<And>x y. ?S x y = - 1 \<or> ?S x y = 0 \<or> ?S x y = 1"
    proof -
      fix x y
      show "?S x y = - 1 \<or> ?S x y = 0 \<or> ?S x y = 1"
        by (cases "naturalSort lc x y") (auto simp: sgn_if)
    qed
    from 1 2 S_anti [of a c] S_anti [of b c] r [of a c] r [of b c] show ?thesis by auto
  qed
  have c5: "(\<forall>ch \<in> set p. \<not> is_digit ch)
        \<and> d1 \<noteq> [] \<and> (\<forall>ch \<in> set d1. is_digit ch) \<and> d2 \<noteq> [] \<and> (\<forall>ch \<in> set d2. is_digit ch)
        \<and> (s1 = [] \<or> \<not> is_digit (hd s1)) \<and> (s2 = [] \<or> \<not> is_digit (hd s2))
        \<and> decimal d1 < 2 ^ 53 \<and> decimal d2 < 2 ^ 53 \<and> decimal d1 \<noteq> decimal d2 \<longrightarrow>
         naturalSort lc (p @ d1 @ s1) (p @ d2 @ s2) =
           Fin (int (decimal d1) - int (decimal d2))"
    using naturalSort_numeric_run [of lc p d1 d2 s1 s2] refl by blast
  have c6: "naturalSort lc ''file2.txt'' ''file10.txt'' = Fin (- 8)"
    by (simp add: naturalSort_def is_digit_def compareToken_def toNumber_def decimal_def
        round_double_def round_int_def refl)
  have c7: "naturalSort lc ''a'' ''a'' = Fin 0"
    by (simp add: naturalSort_def compareTokens_same [OF refl])
  from c1 c2 c3 c4 c5 c6 c7 show ?thesis by blast
qed

theorem naturalSort_total_preorder_witness:
  "naturalSort ordinalCompare ''img12.png'' ''img12.png'' = Fin 0
   \<and> sign (naturalSort ordinalCompare ''b'' ''a10'') =
       - sign (naturalSort ordinalCompare ''a10'' ''b'')
   \<and> sign (naturalSort ordinalCompare ''a2'' ''a10'') \<le> 0
   \<and> sign (naturalSort ordinalCompare ''a10'' ''b'') \<le> 0
   \<and> sign (naturalSort ordinalCompare ''a2'' ''b'') \<le> 0
   \<and> sign (naturalSort ordinalCompare ''a1'' ''a01'') = 0
   \<and> sign (naturalSort ordinalCompare ''a1'' ''b'') = sign (naturalSort ordinalCompare ''a01'' ''b'')
   \<and> naturalSort ordinalCompare (''file'' @ ''2'' @ ''.txt'') (''file'' @ ''10'' @ ''.txt'') =
       Fin (int (decimal ''2'') - int (decimal ''10''))
   \<and> naturalSort ordinalCompare ''file2.txt'' ''file10.txt'' = Fin (- 8)"
proof -
  note ev = naturalSort_def is_digit_def compareToken_def toNumber_def decimal_def
    round_double_def round_int_def
  note t = naturalSort_total_preorder [OF collation_ordinalCompare]
  have e1: "sign (naturalSort ordinalCompare ''a2'' ''a10'') \<le> 0" by (simp add: ev)
  have e2: "sign (naturalSort ordinalCompare ''a10'' ''b'') \<le> 0" by (simp add: ev)
  have e3: "sign (naturalSort ordinalCompare ''a1'' ''a01'') = 0" by (simp add: ev)
  have h: "(\<forall>ch \<in> set ''file''. \<not> is_digit ch)
        \<and> ''2'' \<noteq> [] \<and> (\<forall>ch \<in> set ''2''. is_digit ch)
        \<and> ''10'' \<noteq> [] \<and> (\<forall>ch \<in> set ''10''. is_digit ch)
        \<and> (''.txt'' = [] \<or> \<not> is_digit (hd ''.txt''))
        \<and> (''.txt'' = [] \<or> \<not> is_digit (hd ''.txt''))
        \<and> decimal ''2'' < 2 ^ 53 \<and> decimal ''10'' < 2 ^ 53 \<and> decimal ''2'' \<noteq> decimal ''10''"
    by (simp add: is_digit_def decimal_def)
  from t [where a = "''img12.png''"] have c1: "naturalSort ordinalCompare ''img12.png'' ''img12.png'' = Fin 0"
    by blast
  from t [where a = "''a10''" and b = "''b''"] have c2: "sign (naturalSort ordinalCompare ''b'' ''a10'') =
       - sign (naturalSort ordinalCompare ''a10'' ''b'')"
    by blast
  from t [where a = "''a2''" and b = "''a10''" and c = "''b''"] e1 e2
  have c3: "sign (naturalSort ordinalCompare ''a2'' ''b'') \<le> 0" by blast
  from t [where a = "''a1''" and b = "''a01''" and c = "''b''"] e3
  have c4: "sign (naturalSort ordinalCompare ''a1'' ''b'') =
      sign (naturalSort ordinalCompare ''a01'' ''b'')" by blast
  from t [where p = "''file''" and ?d1.0 = "''2''" and ?d2.0 = "''10''" and ?s1.0 = "''.txt''"
      and ?s2.0 = "''.txt''"] h
  have c5: "naturalSort ordinalCompare (''file'' @ ''2'' @ ''.txt'') (''file'' @ ''10'' @ ''.txt'') =
       Fin (int (decimal ''2'') - int (decimal ''10''))" by blast
  from t [where a = "''a''"] have c6: "naturalSort ordinalCompare ''file2.txt'' ''file10.txt'' = Fin (- 8)"
    by blast
  from c1 c2 e1 e2 c3 e3 c4 c5 c6 show ?thesis by blast
qed



section \<open>Properties of the Type Classifier\<close>

lemma match_ext_nodot: "CHR ''.'' \<notin> set s \<Longrightarrow> match_ext s = None"
  by (induction s) auto

lemma match_ext_last_dot:
  "CHR ''.'' \<notin> set q \<Longrightarrow>
   match_ext (p @ CHR ''.'' # q) = (if q = [] then None else Some (CHR ''.'' # q))"
  by (induction p) (auto simp: match_ext_nodot)

lemma find_type_None:
  "find_type tbl ext = None \<longleftrightarrow> (\<forall>(t, exts) \<in> set tbl. ext \<notin> set exts)"
  by (induction tbl ext rule: find_type.induct) auto

lemma of_char_lower:
  assumes "65 \<le> (of_char c :: nat)" "(of_char c :: nat) \<le> 90"
  shows "(of_char (lower_char c) :: nat) = of_char c + 32"
  using assms by (simp add: lower_char_def Let_def)

lemma lower_char_idem: "lower_char (lower_char c) = lower_char c"
proof (cases "65 \<le> (of_char c :: nat) \<and> (of_char c :: nat) \<le> 90")
  case True
  then have "(of_char (lower_char c) :: nat) = of_char c + 32"
    by (simp add: of_char_lower)
  then have "\<not> (of_char (lower_char c) :: nat) \<le> 90" using True by simp
  then show ?thesis by (simp add: lower_char_def [of "lower_char c"] Let_def)
next
  case False
  then show ?thesis by (auto simp: lower_char_def Let_def)
qed

lemma toLowerCase_idem: "toLowerCase (toLowerCase s) = toLowerCase s"
  by (simp add: toLowerCase_def lower_char_idem)

lemma lower_char_dot: "lower_char c = CHR ''.'' \<longleftrightarrow> c = CHR ''.''"
proof (cases "65 \<le> (of_char c :: nat) \<and> (of_char c :: nat) \<le> 90")
  case True
  then have "(of_char (lower_char c) :: nat) = of_char c + 32"
    by (simp add: of_char_lower)
  with True have "(of_char (lower_char c) :: nat) \<noteq> of_char (CHR ''.'')" by simp
  then have "lower_char c \<noteq> CHR ''.''" by metis
  moreover from True have "c \<noteq> CHR ''.''" by auto
  ultimately show ?thesis by simp
next
  case False
  then show ?thesis by (auto simp: lower_char_def Let_def)
qed

lemma toLowerCase_dot_free: "CHR ''.'' \<in> set (toLowerCase s) \<longleftrightarrow> CHR ''.'' \<in> set s"
proof -
  have "CHR ''.'' \<in> lower_char ` set s \<longleftrightarrow> CHR ''.'' \<in> set s"
    by (metis (no_types, lifting) image_iff lower_char_dot)
  then show ?thesis by (simp add: toLowerCase_def)
qed

lemma toLowerCase_append: "toLowerCase (p @ q) = toLowerCase p @ toLowerCase q"
  by (simp add: toLowerCase_def)

lemma toLowerCase_Cons_dot: "toLowerCase (CHR ''.'' # q) = CHR ''.'' # toLowerCase q"
  by (simp add: toLowerCase_def lower_char_def)

lemma getFileType_suffix:
  assumes "CHR ''.'' \<notin> set q"
  shows "getFileType (p @ CHR ''.'' # q) =
    find_type SUPPORTED (if q = [] then '''' else CHR ''.'' # toLowerCase q)"
proof -
  have "CHR ''.'' \<notin> set (toLowerCase q)" using assms by (simp add: toLowerCase_dot_free)
  then have "match_ext (toLowerCase p @ CHR ''.'' # toLowerCase q) =
      (if toLowerCase q = [] then None else Some (CHR ''.'' # toLowerCase q))"
    by (rule match_ext_last_dot)
  then show ?thesis
    by (simp add: getFileType_def toLowerCase_append toLowerCase_Cons_dot)
       (simp add: toLowerCase_def)
qed

lemma getFileType_nodot:
  assumes "CHR ''.'' \<notin> set s"
  shows "getFileType s = None"
proof -
  have "match_ext (toLowerCase s) = None"
    using assms by (simp add: match_ext_nodot toLowerCase_dot_free)
  then show ?thesis by (simp add: getFileType_def SUPPORTED_def)
qed

text \<open>
  Claim C5. Classification is a total function of the name: every string, the empty one,
  a name without a dot and a name with several dots included, has exactly one result.
  The result is read from the final dot-suffix alone: a name \<open>p.q\<close> whose \<open>q\<close> holds no
  dot is classified by looking up \<open>.q\<close>, lowercased, in \<open>SUPPORTED\<close>, whatever \<open>p\<close> is; a
  name without a dot, a name that ends in a dot, and a suffix that no list of
  \<open>SUPPORTED\<close> includes give \<open>None\<close> (no category). Two names that are equal up to the
  case of their letters get the same result, so \<open>X.PDF\<close> and \<open>x.pdf\<close> classify
  identically, and \<open>a.b.c.PDF\<close> is a PDF.
\<close>

theorem getFileType_total_by_final_suffix:
  "(\<exists>!r. getFileType name = r)
   \<and> (CHR ''.'' \<notin> set q \<longrightarrow>
        getFileType (p @ CHR ''.'' # q) =
          find_type SUPPORTED (if q = [] then '''' else CHR ''.'' # toLowerCase q))
   \<and> (CHR ''.'' \<notin> set q \<longrightarrow>
        (\<forall>(t, exts) \<in> set SUPPORTED. CHR ''.'' # toLowerCase q \<notin> set exts) \<longrightarrow>
        getFileType (p @ CHR ''.'' # q) = None)
   \<and> (CHR ''.'' \<notin> set name \<longrightarrow> getFileType name = None)
   \<and> getFileType (p @ ''.'') = None
   \<and> (toLowerCase a = toLowerCase b \<longrightarrow> getFileType a = getFileType b)
   \<and> getFileType (toLowerCase name) = getFileType name
   \<and> getFileType '''' = None
   \<and> getFileType ''noext'' = None
   \<and> getFileType ''a.b.c.PDF'' = Some Pdf
   \<and> getFileType ''X.PDF'' = getFileType ''x.pdf''"
proof -
  have total: "\<exists>!r. getFileType name = r" by simp
  have suffix: "CHR ''.'' \<notin> set q \<longrightarrow>
        getFileType (p @ CHR ''.'' # q) =
          find_type SUPPORTED (if q = [] then '''' else CHR ''.'' # toLowerCase q)"
    by (simp add: getFileType_suffix)
  have unmapped: "CHR ''.'' \<notin> set q \<longrightarrow>
        (\<forall>(t, exts) \<in> set SUPPORTED. CHR ''.'' # toLowerCase q \<notin> set exts) \<longrightarrow>
        getFileType (p @ CHR ''.'' # q) = None"
  proof (intro impI)
    assume q: "CHR ''.'' \<notin> set q"
      and un: "\<forall>(t, exts) \<in> set SUPPORTED. CHR ''.'' # toLowerCase q \<notin> set exts"
    show "getFileType (p @ CHR ''.'' # q) = None"
    proof (cases "q = []")
      case True
      then show ?thesis using getFileType_suffix [of "[]" p] by (simp add: SUPPORTED_def)
    next
      case False
      then show ?thesis using getFileType_suffix [OF q, of p] un
        by (simp add: find_type_None)
    qed
  qed
  have missing: "CHR ''.'' \<notin> set name \<longrightarrow> getFileType name = None"
    by (simp add: getFileType_nodot)
  have trailing: "getFileType (p @ ''.'') = None"
    using getFileType_suffix [of "[]" p] by (simp add: SUPPORTED_def)
  have insens: "toLowerCase a = toLowerCase b \<longrightarrow> getFileType a = getFileType b"
    by (simp add: getFileType_def)
  have lower: "getFileType (toLowerCase name) = getFileType name"
    by (simp add: getFileType_def toLowerCase_idem)
  have e1: "getFileType '''' = None" by code_simp
  have e2: "getFileType ''noext'' = None" by code_simp
  have e3: "getFileType ''a.b.c.PDF'' = Some Pdf" by code_simp
  have e4: "getFileType ''X.PDF'' = getFileType ''x.pdf''" by code_simp
  from total suffix unmapped missing trailing insens lower e1 e2 e3 e4
  show ?thesis by blast
qed

theorem getFileType_total_by_final_suffix_witness:
  "CHR ''.'' \<notin> set ''xyz''
   \<and> find_type SUPPORTED (CHR ''.'' # toLowerCase ''xyz'') = None
   \<and> getFileType (''notes.tar'' @ CHR ''.'' # ''xyz'') = None
   \<and> CHR ''.'' \<notin> set ''README''
   \<and> getFileType ''README'' = None
   \<and> toLowerCase ''Scan.JPeG'' = toLowerCase ''sCAN.jpEg''
   \<and> getFileType ''Scan.JPeG'' = getFileType ''sCAN.jpEg''"
proof -
  have h1: "CHR ''.'' \<notin> set ''xyz''" by simp
  have h2: "\<forall>(t, exts) \<in> set SUPPORTED. CHR ''.'' # toLowerCase ''xyz'' \<notin> set exts"
    by code_simp
  have h3: "CHR ''.'' \<notin> set ''README''" by simp
  have h4: "toLowerCase ''Scan.JPeG'' = toLowerCase ''sCAN.jpEg''" by code_simp
  have h5: "find_type SUPPORTED (CHR ''.'' # toLowerCase ''xyz'') = None" by code_simp
  from getFileType_total_by_final_suffix
    [of "''README''" "''xyz''" "''notes.tar''" "''Scan.JPeG''" "''sCAN.jpEg''"] h1 h2 h3 h4 h5
  show ?thesis by blast
qed

end
